theory Spec2Isabelle
  imports Complex_Main "HOL-Library.Word"
begin

section \<open>JavaScript numbers\<close>

text \<open>
  Every arithmetic value of \<^verbatim>\<open>script.js\<close> is a JavaScript Number, a double. The pixel
  pipeline only multiplies and adds non-negative values (array bytes, mask entries and the
  three weight literals), so a finite number is kept as \<open>Fin m e\<close>, standing for
  \<open>m * 2 ^ e\<close> with a natural significand, and \<open>NaN\<close> is what arithmetic on
  \<^verbatim>\<open>undefined\<close> gives. Each operation computes the exact result and rounds it to 53
  significant bits, ties to even. The exponent range of a double is not modelled: the
  nonzero values of the pipeline stay between \<open>0.11\<close> and \<open>255\<close>.
\<close>

datatype number = Fin nat int | NaN

fun bitlen :: "nat \<Rightarrow> nat" where
  "bitlen n = (if n = 0 then 0 else Suc (bitlen (n div 2)))"

declare bitlen.simps [simp del]

definition round53 :: "nat \<Rightarrow> int \<Rightarrow> number" where
  "round53 m e =
     (if m < 2 ^ 53 then Fin m e
      else let k = bitlen m - 53;
               q = m div 2 ^ k;
               r = m mod 2 ^ k;
               h = 2 ^ (k - 1)
           in Fin (if r < h \<or> (r = h \<and> even q) then q else q + 1) (e + int k))"

fun fmul :: "number \<Rightarrow> number \<Rightarrow> number" where
  "fmul (Fin m1 e1) (Fin m2 e2) = round53 (m1 * m2) (e1 + e2)"
| "fmul _ _ = NaN"

fun fadd :: "number \<Rightarrow> number \<Rightarrow> number" where
  "fadd (Fin m1 e1) (Fin m2 e2) =
     (let e = min e1 e2
      in round53 (m1 * 2 ^ nat (e1 - e) + m2 * 2 ^ nat (e2 - e)) e)"
| "fadd _ _ = NaN"

fun valof :: "number \<Rightarrow> rat option" where
  "valof (Fin m e) = Some (of_nat m * 2 powi e)"
| "valof NaN = None"

definition num :: "nat \<Rightarrow> number" where
  "num n = Fin n 0"

text \<open>The doubles that the literals \<^verbatim>\<open>0.3\<close>, \<^verbatim>\<open>0.59\<close> and \<^verbatim>\<open>0.11\<close> denote.\<close>

definition lit_0_3 :: number where
  "lit_0_3 = Fin 5404319552844595 (- 54)"

definition lit_0_59 :: number where
  "lit_0_59 = Fin 5314247560297185 (- 53)"

definition lit_0_11 :: number where
  "lit_0_11 = Fin 7926335344172073 (- 56)"

section \<open>Pixel buffers\<close>

text \<open>
  \<^verbatim>\<open>ImageData.data\<close> is a \<^verbatim>\<open>Uint8ClampedArray\<close>: a read past the end gives
  \<^verbatim>\<open>undefined\<close> (\<open>NaN\<close> in arithmetic), a write past the end is dropped (as
  \<open>xs[i := v]\<close> does), and a stored number is clamped to \<open>[0, 255]\<close> and rounded to the
  nearest integer, ties to even.
\<close>

type_synonym pixels = "8 word list"

definition rd :: "pixels \<Rightarrow> nat \<Rightarrow> number" where
  "rd a i = (if i < length a then num (unat (a ! i)) else NaN)"

fun toUint8Clamp :: "number \<Rightarrow> 8 word" where
  "toUint8Clamp NaN = 0"
| "toUint8Clamp (Fin m e) =
     (if 0 \<le> e then (let n = m * 2 ^ nat e in if 255 \<le> n then 255 else of_nat n)
      else let d = 2 ^ nat (- e);
               f = m div d;
               r = m mod d
           in if 255 \<le> f then 255
              else if 2 * r < d then of_nat f
              else if d < 2 * r then of_nat (f + 1)
              else if even f then of_nat f else of_nat (f + 1))"

section \<open>Presets and the grayscale function\<close>

record mode =
  left :: "nat list"
  right :: "nat list"

text \<open>The three own entries of the table.\<close>

definition ANAGLYPH_MODES :: "string \<Rightarrow> mode option" where
  "ANAGLYPH_MODES =
     [''red_cyan'' \<mapsto> \<lparr>left = [1, 0, 0], right = [0, 1, 1]\<rparr>,
      ''green_magenta'' \<mapsto> \<lparr>left = [0, 1, 0], right = [1, 0, 1]\<rparr>,
      ''blue_yellow'' \<mapsto> \<lparr>left = [0, 0, 1], right = [1, 1, 0]\<rparr>]"

text \<open>
  The property read \<^verbatim>\<open>ANAGLYPH_MODES[anaglyphMode]\<close>. The table is an object literal: a
  key that is not one of its own is looked up in \<^verbatim>\<open>Object.prototype\<close>, whose
  properties are all truthy and have no \<^verbatim>\<open>left\<close> or \<^verbatim>\<open>right\<close>; any other key gives
  \<^verbatim>\<open>undefined\<close>.
\<close>

datatype property = Own mode | Inherited | Undefined

definition Object_prototype :: "string list" where
  "Object_prototype =
     [''constructor'', ''__proto__'', ''hasOwnProperty'', ''isPrototypeOf'',
      ''propertyIsEnumerable'', ''toLocaleString'', ''toString'', ''valueOf'',
      ''__defineGetter__'', ''__defineSetter__'', ''__lookupGetter__'', ''__lookupSetter__'']"

definition get_mode :: "string \<Rightarrow> property" where
  "get_mode key =
     (case ANAGLYPH_MODES key of
        Some mode \<Rightarrow> Own mode
      | None \<Rightarrow> if key \<in> set Object_prototype then Inherited else Undefined)"

definition getGrayscale :: "number \<Rightarrow> number \<Rightarrow> number \<Rightarrow> number" where
  "getGrayscale r g b = fadd (fadd (fmul r lit_0_3) (fmul g lit_0_59)) (fmul b lit_0_11)"

section \<open>The conversion loop of processFrame\<close>

definition R_out :: "mode \<Rightarrow> number \<Rightarrow> number \<Rightarrow> number \<Rightarrow> number" where
  "R_out mode R_L R_L_Gray R_R_Gray =
     fadd (fmul (if left mode ! 0 = 1 then R_L else R_L_Gray) (num (left mode ! 0)))
          (fmul (if right mode ! 0 = 1 then R_R_Gray else num 0) (num (right mode ! 0)))"

definition G_out :: "mode \<Rightarrow> number \<Rightarrow> number \<Rightarrow> number \<Rightarrow> number" where
  "G_out mode G_L G_L_Gray G_R_Gray =
     fadd (fmul (if left mode ! 1 = 1 then G_L else G_L_Gray) (num (left mode ! 1)))
          (fmul (if right mode ! 1 = 1 then G_R_Gray else num 0) (num (right mode ! 1)))"

definition B_out :: "mode \<Rightarrow> number \<Rightarrow> number \<Rightarrow> number \<Rightarrow> number" where
  "B_out mode B_L B_L_Gray B_R_Gray =
     fadd (fmul (if left mode ! 2 = 1 then B_L else B_L_Gray) (num (left mode ! 2)))
          (fmul (if right mode ! 2 = 1 then B_R_Gray else num 0) (num (right mode ! 2)))"

text \<open>One iteration of the loop body, at index \<open>i\<close>.\<close>

definition anaglyph_pixel :: "mode \<Rightarrow> nat \<Rightarrow> pixels \<Rightarrow> pixels \<Rightarrow> pixels" where
  "anaglyph_pixel mode i leftPixels rightPixels =
     (let R_L = rd leftPixels i;
          G_L = rd leftPixels (i + 1);
          B_L = rd leftPixels (i + 2);
          R_R = rd rightPixels i;
          G_R = rd rightPixels (i + 1);
          B_R = rd rightPixels (i + 2);
          R_L_Gray = getGrayscale R_L G_L B_L;
          G_L_Gray = getGrayscale R_L G_L B_L;
          B_L_Gray = getGrayscale R_L G_L B_L;
          R_R_Gray = getGrayscale R_R G_R B_R;
          G_R_Gray = getGrayscale R_R G_R B_R;
          B_R_Gray = getGrayscale R_R G_R B_R
      in leftPixels
           [i := toUint8Clamp (R_out mode R_L R_L_Gray R_R_Gray),
            i + 1 := toUint8Clamp (G_out mode G_L G_L_Gray G_R_Gray),
            i + 2 := toUint8Clamp (B_out mode B_L B_L_Gray B_R_Gray)])"

function anaglyph_loop :: "mode \<Rightarrow> nat \<Rightarrow> pixels \<Rightarrow> pixels \<Rightarrow> pixels" where
  "anaglyph_loop mode i leftPixels rightPixels =
     (if i < length leftPixels
      then anaglyph_loop mode (i + 4) (anaglyph_pixel mode i leftPixels rightPixels) rightPixels
      else leftPixels)"
  by pat_completeness auto
termination
  by (relation "measure (\<lambda>(mode, i, leftPixels, rightPixels). length leftPixels - i)")
     (auto simp: anaglyph_pixel_def Let_def)

declare anaglyph_loop.simps [simp del]

text \<open>
  The loop on what the property read gave. With a value that is no preset,
  \<^verbatim>\<open>mode.left[0]\<close> throws in the first iteration; with an empty buffer there is none.
\<close>

datatype error = TypeError

definition conversion :: "property \<Rightarrow> pixels \<Rightarrow> pixels \<Rightarrow> error + pixels" where
  "conversion mode leftPixels rightPixels =
     (case mode of
        Own m \<Rightarrow> Inr (anaglyph_loop m 0 leftPixels rightPixels)
      | _ \<Rightarrow> if 0 < length leftPixels then Inl TypeError else Inr leftPixels)"

section \<open>Player state and the frame cycle\<close>

text \<open>
  The state holds the script's global variables (\<open>animationFrameId\<close>,
  \<open>isVideoPlaying\<close>, \<open>anaglyphMode\<close>), the properties of the video element and of
  the canvas that the script reads, and the platform's side of the interface: the play
  promises not yet settled, the animation-frame callbacks requested and not yet run or
  cancelled, the next callback handle (handles are positive), a log of the canvas and
  scheduling calls made so far, and the exceptions that no handler caught.
\<close>

datatype call = DrawImage | GetImageData | PutImageData
  | RequestAnimationFrame | CancelAnimationFrame

record state =
  has_src :: bool
  paused :: bool
  ended :: bool
  videoWidth :: nat
  canvas_width :: nat
  canvas_height :: nat
  canvas :: pixels
  animationFrameId :: "nat option"
  isVideoPlaying :: bool
  anaglyphMode :: string
  play_promises :: nat
  frame_requests :: "nat list"
  next_handle :: nat
  calls :: "call list"
  uncaught :: "error list"

text \<open>\<^verbatim>\<open>animationFrameId = requestAnimationFrame(processFrame)\<close>\<close>

definition request_frame :: "state \<Rightarrow> state" where
  "request_frame s =
     s\<lparr>animationFrameId := Some (next_handle s),
       frame_requests := frame_requests s @ [next_handle s],
       next_handle := Suc (next_handle s),
       calls := calls s @ [RequestAnimationFrame]\<rparr>"

text \<open>\<^verbatim>\<open>!animationFrameId\<close>: \<^verbatim>\<open>null\<close> and \<open>0\<close> are falsy.\<close>

definition no_id :: "nat option \<Rightarrow> bool" where
  "no_id x = (x = None \<or> x = Some 0)"

text \<open>
  \<open>processFrame srcL srcR s\<close> is one run of the callback. What the two
  \<^verbatim>\<open>drawImage\<close> calls leave on the canvas (the left and the right half of the current
  video frame, scaled by the platform) is given as \<open>srcL\<close> and \<open>srcR\<close>;
  \<^verbatim>\<open>getImageData\<close> copies the canvas and \<^verbatim>\<open>putImageData\<close> writes the converted
  copy back. An exception thrown in the loop ends the run where it is: nothing is written
  back and no frame is requested.
\<close>

definition processFrame :: "pixels \<Rightarrow> pixels \<Rightarrow> state \<Rightarrow> state" where
  "processFrame srcL srcR s =
     (if paused s \<or> ended s then s\<lparr>animationFrameId := None\<rparr>
      else
        let width = canvas_width s;
            height = canvas_height s;
            sourceWidth = videoWidth s;
            mode = get_mode (anaglyphMode s)
        in if mode = Undefined \<or> width = 0 \<or> height = 0 then request_frame s
           else
             let s1 = s\<lparr>canvas := srcL, calls := calls s @ [DrawImage]\<rparr>;
                 leftPixels = canvas s1;
                 s2 = s1\<lparr>canvas := srcR,
                         calls := calls s1 @ [GetImageData, DrawImage]\<rparr>;
                 rightPixels = canvas s2;
                 s3 = s2\<lparr>calls := calls s2 @ [GetImageData]\<rparr>
             in case conversion mode leftPixels rightPixels of
                  Inl e \<Rightarrow> s3\<lparr>uncaught := uncaught s3 @ [e]\<rparr>
                | Inr leftData \<Rightarrow>
                    request_frame
                      (s3\<lparr>canvas := leftData, calls := calls s3 @ [PutImageData]\<rparr>))"

text \<open>
  \<^verbatim>\<open>sourceVideo.play()\<close> un-pauses the element (restarting an ended stream) and returns
  a promise; its handlers run when the platform settles it, as separate events.
\<close>

definition attemptPlayback :: "state \<Rightarrow> state" where
  "attemptPlayback s =
     s\<lparr>paused := False, ended := False, play_promises := Suc (play_promises s)\<rparr>"

definition play_fulfilled :: "state \<Rightarrow> state" where
  "play_fulfilled s =
     (let s1 = s\<lparr>isVideoPlaying := True\<rparr>
      in if no_id (animationFrameId s1) then request_frame s1 else s1)"

definition play_rejected :: "state \<Rightarrow> state" where
  "play_rejected s = s\<lparr>isVideoPlaying := False\<rparr>"

definition togglePlayback :: "state \<Rightarrow> state" where
  "togglePlayback s =
     (if \<not> has_src s then s
      else if paused s then attemptPlayback s
      else s\<lparr>paused := True, isVideoPlaying := False\<rparr>)"

text \<open>
  The change handler of the file input: it cancels the outstanding callback, if any, and
  leaves \<open>animationFrameId\<close> as it is; \<^verbatim>\<open>load()\<close> pauses the element.
\<close>

definition video_selected :: "state \<Rightarrow> state" where
  "video_selected s =
     (let s1 = (case animationFrameId s of
                  None \<Rightarrow> s
                | Some h \<Rightarrow>
                    if h = 0 then s
                    else s\<lparr>frame_requests := removeAll h (frame_requests s),
                           calls := calls s @ [CancelAnimationFrame]\<rparr>)
      in s1\<lparr>has_src := True, paused := True, ended := False, videoWidth := 0\<rparr>)"

definition onloadedmetadata :: "nat \<Rightarrow> nat \<Rightarrow> state \<Rightarrow> state" where
  "onloadedmetadata originalWidth originalHeight s =
     s\<lparr>videoWidth := originalWidth,
       canvas_width := originalWidth div 2,
       canvas_height := originalHeight,
       canvas := replicate (4 * (originalWidth div 2) * originalHeight) 0\<rparr>"

datatype event =
    Video_selected
  | Loadedmetadata nat nat
  | Canplay
  | Click_playPause
  | Click_mode string
  | Play_fulfilled
  | Play_rejected
  | Animation_frame pixels pixels
  | Playback_ended

fun step :: "event \<Rightarrow> state \<Rightarrow> state" where
  "step Video_selected s = video_selected s"
| "step (Loadedmetadata w h) s = onloadedmetadata w h s"
| "step Canplay s = attemptPlayback s"
| "step Click_playPause s = togglePlayback s"
| "step (Click_mode name) s = s\<lparr>anaglyphMode := name\<rparr>"
| "step Play_fulfilled s =
     (if play_promises s = 0 then s
      else play_fulfilled (s\<lparr>play_promises := play_promises s - 1\<rparr>))"
| "step Play_rejected s =
     (if play_promises s = 0 then s
      else play_rejected (s\<lparr>play_promises := play_promises s - 1, paused := True\<rparr>))"
| "step (Animation_frame srcL srcR) s =
     (case frame_requests s of
        [] \<Rightarrow> s
      | h # hs \<Rightarrow> processFrame srcL srcR (s\<lparr>frame_requests := hs\<rparr>))"
| "step Playback_ended s = s\<lparr>ended := True\<rparr>"

definition run :: "event list \<Rightarrow> state \<Rightarrow> state" where
  "run es s = fold step es s"

text \<open>The page as loaded: no video, nothing scheduled, the default preset.\<close>

definition initial :: "nat \<Rightarrow> nat \<Rightarrow> state" where
  "initial w h =
     \<lparr>has_src = False, paused = True, ended = False, videoWidth = 0,
      canvas_width = w, canvas_height = h, canvas = replicate (4 * w * h) 0,
      animationFrameId = None, isVideoPlaying = False, anaglyphMode = ''red_cyan'',
      play_promises = 0, frame_requests = [], next_handle = 1, calls = [],
      uncaught = []\<rparr>"

section \<open>The transform as the specification words it\<close>

text \<open>
  A second description of one output channel, following the five steps of the
  specification's per-pixel transform, to be compared with the loop above. A pixel is the
  triple of its red, green and blue bytes; \<open>pixel_at a p\<close> is pixel \<open>p\<close> of an RGBA buffer.
\<close>

type_synonym rgb = "8 word \<times> 8 word \<times> 8 word"

definition pixel_at :: "pixels \<Rightarrow> nat \<Rightarrow> rgb" where
  "pixel_at a p = (a ! (4 * p), a ! (4 * p + 1), a ! (4 * p + 2))"

definition spec_raw :: "rgb \<Rightarrow> nat \<Rightarrow> number" where
  "spec_raw px c =
     (case px of (r, g, b) \<Rightarrow> num (unat (if c = 0 then r else if c = 1 then g else b)))"

definition spec_gray :: "rgb \<Rightarrow> number" where
  "spec_gray px =
     (case px of (r, g, b) \<Rightarrow> getGrayscale (num (unat r)) (num (unat g)) (num (unat b)))"

definition spec_leftContribution :: "mode \<Rightarrow> nat \<Rightarrow> rgb \<Rightarrow> number" where
  "spec_leftContribution mode c pxL =
     fmul (if left mode ! c = 1 then spec_raw pxL c else spec_gray pxL) (num (left mode ! c))"

definition spec_rightContribution :: "mode \<Rightarrow> nat \<Rightarrow> rgb \<Rightarrow> number" where
  "spec_rightContribution mode c pxR =
     fmul (if right mode ! c = 1 then spec_gray pxR else num 0) (num (right mode ! c))"

definition spec_output :: "mode \<Rightarrow> nat \<Rightarrow> rgb \<Rightarrow> rgb \<Rightarrow> 8 word" where
  "spec_output mode c pxL pxR =
     toUint8Clamp (fadd (spec_leftContribution mode c pxL) (spec_rightContribution mode c pxR))"

section \<open>Notions used in the proofs\<close>

text \<open>\<open>rnd m\<close> is the natural number that \<open>round53 m e\<close> stands for, up to \<open>2 ^ e\<close>.\<close>

definition rnd :: "nat \<Rightarrow> nat" where
  "rnd m =
     (if m < 2 ^ 53 then m
      else let k = bitlen m - 53;
               q = m div 2 ^ k;
               r = m mod 2 ^ k;
               h = 2 ^ (k - 1)
           in (if r < h \<or> (r = h \<and> even q) then q else q + 1) * 2 ^ k)"

text \<open>Comparison of two finite numbers by value.\<close>

definition num_le :: "number \<Rightarrow> number \<Rightarrow> bool" where
  "num_le a b =
     (case (valof a, valof b) of (Some x, Some y) \<Rightarrow> x \<le> y | _ \<Rightarrow> False)"

definition in_byte_range :: "number \<Rightarrow> bool" where
  "in_byte_range x = (case valof x of None \<Rightarrow> False | Some v \<Rightarrow> 0 \<le> v \<and> v \<le> 255)"

text \<open>The invariant of the scheduling: at most one callback is requested, and it is the one
  that \<open>animationFrameId\<close> names.\<close>

definition one_cycle :: "state \<Rightarrow> bool" where
  "one_cycle s =
     (0 < next_handle s \<and>
      (frame_requests s = [] \<or>
       (\<exists>h. 0 < h \<and> frame_requests s = [h] \<and> animationFrameId s = Some h)))"

text \<open>No callback is requested, and \<open>animationFrameId\<close> still names one.\<close>

definition stalled :: "state \<Rightarrow> bool" where
  "stalled s = (frame_requests s = [] \<and> \<not> no_id (animationFrameId s))"

text \<open>The run of the callback that ends in an exception.\<close>

definition throws :: "pixels \<Rightarrow> state \<Rightarrow> bool" where
  "throws srcL s =
     (\<not> paused s \<and> \<not> ended s \<and> get_mode (anaglyphMode s) = Inherited
      \<and> canvas_width s \<noteq> 0 \<and> canvas_height s \<noteq> 0 \<and> srcL \<noteq> [])"

text \<open>
  A video is loaded, a filter button whose \<^verbatim>\<open>data-mode\<close> is \<open>name\<close> is clicked, and
  the video is played: the state in which the first animation frame runs.
\<close>

definition mode_trace :: "string \<Rightarrow> event list" where
  "mode_trace name =
     [Video_selected, Loadedmetadata 2 1, Click_mode name, Canplay, Play_fulfilled]"

text \<open>
  A second video is selected while the cycle of the first is running, and is played.
\<close>

definition reselect_trace :: "event list" where
  "reselect_trace =
     [Video_selected, Loadedmetadata 2 1, Canplay, Play_fulfilled,
      Animation_frame [200, 50, 50, 255] [50, 200, 50, 255],
      Video_selected, Loadedmetadata 2 1, Canplay, Play_fulfilled]"

section \<open>The weight literals\<close>

text \<open>
  Each literal is a 53-bit significand times a power of two, within half a unit in the last
  place of the decimal it is written as: the double nearest to it.
\<close>

lemma weight_literals:
  "valof lit_0_3 = Some (5404319552844595 / 2 ^ 54)"
  "valof lit_0_59 = Some (5314247560297185 / 2 ^ 53)"
  "valof lit_0_11 = Some (7926335344172073 / 2 ^ 56)"
  by (simp_all add: lit_0_3_def lit_0_59_def lit_0_11_def)

lemma weight_literals_nearest:
  "\<bar>5404319552844595 / 2 ^ 54 - 3 / 10\<bar> \<le> (1 / 2 ^ 55 :: rat)"
  "\<bar>5314247560297185 / 2 ^ 53 - 59 / 100\<bar> \<le> (1 / 2 ^ 54 :: rat)"
  "\<bar>7926335344172073 / 2 ^ 56 - 11 / 100\<bar> \<le> (1 / 2 ^ 57 :: rat)"
  by simp_all

lemma weight_literals_normal:
  "2 ^ 52 \<le> (5404319552844595 :: nat) \<and> (5404319552844595 :: nat) < 2 ^ 53"
  "2 ^ 52 \<le> (5314247560297185 :: nat) \<and> (5314247560297185 :: nat) < 2 ^ 53"
  "2 ^ 52 \<le> (7926335344172073 :: nat) \<and> (7926335344172073 :: nat) < 2 ^ 53"
  by simp_all

section \<open>Rounding is monotone\<close>

lemma bitlen_0 [simp]: "bitlen 0 = 0"
  by (simp add: bitlen.simps)

lemma bitlen_1 [simp]: "bitlen (Suc 0) = Suc 0"
  by (simp add: bitlen.simps)

lemma bitlen_upper: "m < 2 ^ bitlen m"
proof (induction m rule: bitlen.induct)
  case (1 n)
  show ?case
  proof (cases "n = 0")
    case True
    then show ?thesis by (simp add: bitlen.simps)
  next
    case False
    with 1 have "n div 2 < 2 ^ bitlen (n div 2)" by simp
    then have "n < 2 * 2 ^ bitlen (n div 2)" by linarith
    with False show ?thesis by (simp add: bitlen.simps[of n])
  qed
qed

lemma bitlen_lower: "m \<noteq> 0 \<Longrightarrow> 2 ^ bitlen m \<le> 2 * m"
proof (induction m rule: bitlen.induct)
  case (1 n)
  show ?case
  proof (cases "n div 2 = 0")
    case True
    with 1(2) have "n = 1" by linarith
    then show ?thesis by simp
  next
    case False
    with 1 have "2 ^ bitlen (n div 2) \<le> 2 * (n div 2)" by simp
    then have "2 * 2 ^ bitlen (n div 2) \<le> 2 * n" by linarith
    with 1(2) show ?thesis by (simp add: bitlen.simps[of n])
  qed
qed

lemma bitlen_mono: "m \<le> n \<Longrightarrow> bitlen m \<le> bitlen n"
proof (rule ccontr)
  assume le: "m \<le> n" and "\<not> bitlen m \<le> bitlen n"
  then have lt: "Suc (bitlen n) \<le> bitlen m" by simp
  then have m0: "m \<noteq> 0" by (cases "m = 0") auto
  have "(2::nat) ^ Suc (bitlen n) \<le> 2 ^ bitlen m"
    using lt by (rule power_increasing) simp
  also have "\<dots> \<le> 2 * m" using m0 by (rule bitlen_lower)
  finally have "2 ^ bitlen n \<le> m" by simp
  with bitlen_upper[of n] le show False by linarith
qed

lemma bitlen_double: "m \<noteq> 0 \<Longrightarrow> bitlen (2 * m) = Suc (bitlen m)"
  by (simp add: bitlen.simps[of "2 * m"])

lemma bitlen_ge54: "2 ^ 53 \<le> m \<Longrightarrow> 54 \<le> bitlen m"
proof (rule ccontr)
  assume a: "2 ^ 53 \<le> m" and "\<not> 54 \<le> bitlen m"
  then have "bitlen m \<le> 53" by simp
  then have "(2::nat) ^ bitlen m \<le> 2 ^ 53" by (rule power_increasing) simp
  with bitlen_upper[of m] a show False by linarith
qed

lemma shift_facts:
  assumes "2 ^ 53 \<le> m"
  shows "bitlen m = (bitlen m - 53) + 53"
    and "1 \<le> bitlen m - 53"
    and "2 ^ 52 \<le> m div 2 ^ (bitlen m - 53)"
    and "m div 2 ^ (bitlen m - 53) < 2 ^ 53"
proof -
  let ?k = "bitlen m - 53"
  have ge: "54 \<le> bitlen m" using assms by (rule bitlen_ge54)
  then show L: "bitlen m = ?k + 53" and "1 \<le> ?k" by simp_all
  have m0: "m \<noteq> 0" using assms by auto
  have "(2::nat) ^ bitlen m = 2 ^ ?k * 2 ^ 53"
    using L by (metis power_add)
  then have up: "m < 2 ^ 53 * 2 ^ ?k" and lo: "2 ^ 53 * 2 ^ ?k \<le> 2 * m"
    using bitlen_upper[of m] bitlen_lower[OF m0] by (simp_all add: mult.commute)
  from up show "m div 2 ^ ?k < 2 ^ 53"
    by (simp add: less_mult_imp_div_less)
  from lo have "2 ^ 52 * 2 ^ ?k \<le> m" by simp
  then have "(2 ^ 52 * 2 ^ ?k) div 2 ^ ?k \<le> m div 2 ^ ?k"
    by (rule div_le_mono)
  then show "2 ^ 52 \<le> m div 2 ^ ?k" by simp
qed

lemma rnd_upper: "rnd m \<le> 2 ^ bitlen m"
proof (cases "m < 2 ^ 53")
  case True
  then show ?thesis using bitlen_upper[of m] by (simp add: rnd_def)
next
  case False
  then have ge: "2 ^ 53 \<le> m" by simp
  let ?k = "bitlen m - 53"
  let ?q = "m div 2 ^ ?k"
  have "rnd m \<le> (?q + 1) * 2 ^ ?k"
    using False by (simp add: rnd_def Let_def)
  also have "\<dots> \<le> 2 ^ 53 * 2 ^ ?k"
    using shift_facts(4)[OF ge] by (intro mult_right_mono) simp_all
  also have "\<dots> = 2 ^ bitlen m"
    using shift_facts(1)[OF ge] by (metis power_add add.commute)
  finally show ?thesis .
qed

lemma rnd_lower: "m \<noteq> 0 \<Longrightarrow> 2 ^ bitlen m \<le> 2 * rnd m"
proof (cases "m < 2 ^ 53")
  case True
  assume "m \<noteq> 0"
  then show ?thesis using True bitlen_lower[of m] by (simp add: rnd_def)
next
  case False
  then have ge: "2 ^ 53 \<le> m" by simp
  let ?k = "bitlen m - 53"
  let ?q = "m div 2 ^ ?k"
  have "(2::nat) ^ bitlen m = 2 ^ 53 * 2 ^ ?k"
    using shift_facts(1)[OF ge] by (metis power_add add.commute)
  also have "\<dots> = 2 * (2 ^ 52 * 2 ^ ?k)" by simp
  also have "\<dots> \<le> 2 * (?q * 2 ^ ?k)"
    using shift_facts(3)[OF ge] by (intro mult_left_mono mult_right_mono) simp_all
  also have "\<dots> \<le> 2 * rnd m"
    using False by (simp add: rnd_def Let_def)
  finally show ?thesis .
qed


lemma rnd_mono:
  assumes "m \<le> n"
  shows "rnd m \<le> rnd n"
proof (cases "n < 2 ^ 53")
  case True
  with assms show ?thesis by (simp add: rnd_def)
next
  case nbig: False
  then have n0: "n \<noteq> 0" by auto
  have gen: "2 ^ 53 \<le> n" using nbig by simp
  show ?thesis
  proof (cases "bitlen m < bitlen n")
    case True
    then have "Suc (bitlen m) \<le> bitlen n" by simp
    then have "(2::nat) ^ Suc (bitlen m) \<le> 2 ^ bitlen n"
      by (rule power_increasing) simp
    also have "\<dots> \<le> 2 * rnd n" using n0 by (rule rnd_lower)
    finally have "2 ^ bitlen m \<le> rnd n" by simp
    with rnd_upper[of m] show ?thesis by linarith
  next
    case False
    with bitlen_mono[OF assms] have eq: "bitlen m = bitlen n" by simp
    have gem: "2 ^ 53 \<le> m"
    proof (rule ccontr)
      assume "\<not> 2 ^ 53 \<le> m"
      then have "m < 2 ^ 53" by simp
      moreover have "(2::nat) ^ 54 \<le> 2 ^ bitlen m"
        using bitlen_ge54[OF gen] eq by (intro power_increasing) simp_all
      moreover have "m \<noteq> 0" using bitlen_ge54[OF gen] eq by (cases "m = 0") auto
      ultimately show False using bitlen_lower[of m] by simp
    qed
    let ?k = "bitlen n - 53"
    let ?h = "(2::nat) ^ (?k - 1)"
    let ?qm = "m div 2 ^ ?k" and ?qn = "n div 2 ^ ?k"
    let ?rm = "m mod 2 ^ ?k" and ?rn = "n mod 2 ^ ?k"
    have rm: "rnd m = (if ?rm < ?h \<or> (?rm = ?h \<and> even ?qm) then ?qm else ?qm + 1) * 2 ^ ?k"
      using gem eq by (simp add: rnd_def Let_def)
    have rn: "rnd n = (if ?rn < ?h \<or> (?rn = ?h \<and> even ?qn) then ?qn else ?qn + 1) * 2 ^ ?k"
      using gen by (simp add: rnd_def Let_def)
    have qle: "?qm \<le> ?qn" using assms by (rule div_le_mono)
    show ?thesis
    proof (cases "?qm = ?qn")
      case True
      have "?qm * 2 ^ ?k + ?rm = m" and "?qn * 2 ^ ?k + ?rn = n"
        by (rule div_mult_mod_eq)+
      with assms have "?qm * 2 ^ ?k + ?rm \<le> ?qn * 2 ^ ?k + ?rn"
        by (simp only:)
      with True have "?rm \<le> ?rn" by simp
      with True show ?thesis unfolding rm rn by auto
    next
      case False
      with qle have "?qm + 1 \<le> ?qn" by simp
      then have "(?qm + 1) * 2 ^ ?k \<le> ?qn * 2 ^ ?k"
        by (rule mult_right_mono) simp
      moreover have "rnd m \<le> (?qm + 1) * 2 ^ ?k" unfolding rm by simp
      moreover have "?qn * 2 ^ ?k \<le> rnd n" unfolding rn by simp
      ultimately show ?thesis by linarith
    qed
  qed
qed

lemma rnd_double: "rnd (2 * m) = 2 * rnd m"
proof (cases "2 * m < 2 ^ 53")
  case True
  then show ?thesis by (simp add: rnd_def)
next
  case big2: False
  then have m0: "m \<noteq> 0" by auto
  show ?thesis
  proof (cases "m < 2 ^ 53")
    case True
    have ge: "2 ^ 53 \<le> 2 * m" using big2 by simp
    have "bitlen (2 * m) \<le> 54"
    proof (rule ccontr)
      assume "\<not> bitlen (2 * m) \<le> 54"
      then have "55 \<le> bitlen (2 * m)" by simp
      then have "(2::nat) ^ 55 \<le> 2 ^ bitlen (2 * m)"
        by (rule power_increasing) simp
      also have "\<dots> \<le> 2 * (2 * m)" using m0 by (intro bitlen_lower) simp
      finally show False using True by simp
    qed
    with bitlen_ge54[OF ge] have "bitlen (2 * m) = 54" by simp
    then show ?thesis using True big2 by (simp add: rnd_def Let_def)
  next
    case False
    then have ge: "2 ^ 53 \<le> m" by simp
    let ?k = "bitlen m - 53"
    have k1: "1 \<le> ?k" using shift_facts(2)[OF ge] .
    have bl: "bitlen (2 * m) - 53 = Suc ?k"
      using bitlen_double[OF m0] shift_facts(1)[OF ge] by simp
    have q: "(2 * m) div 2 ^ Suc ?k = m div 2 ^ ?k" by simp
    have r: "(2 * m) mod 2 ^ Suc ?k = 2 * (m mod 2 ^ ?k)" by simp
    have h: "(2::nat) ^ (Suc ?k - 1) = 2 * 2 ^ (?k - 1)"
      using k1 by (cases ?k) simp_all
    show ?thesis
      using False big2 unfolding rnd_def Let_def bl q r h by simp
  qed
qed

lemma rnd_pow2: "rnd (m * 2 ^ j) = rnd m * 2 ^ j"
proof (induction j)
  case 0
  show ?case by simp
next
  case (Suc j)
  have "rnd (m * 2 ^ Suc j) = rnd (2 * (m * 2 ^ j))" by (simp add: mult.commute mult.left_commute)
  also have "\<dots> = 2 * rnd (m * 2 ^ j)" by (rule rnd_double)
  finally show ?case using Suc by simp
qed


lemma valof_round53: "valof (round53 m e) = Some (of_nat (rnd m) * 2 powi e)"
  by (simp add: round53_def rnd_def Let_def power_int_add)

lemma scale_exp:
  assumes "d \<le> e"
  shows "(of_nat m :: rat) * 2 powi e = of_nat (m * 2 ^ nat (e - d)) * 2 powi d"
proof -
  have "e = d + int (nat (e - d))" using assms by simp
  then have "(2::rat) powi e = 2 powi d * 2 ^ nat (e - d)"
    by (metis power_int_add power_int_of_nat zero_neq_numeral)
  then show ?thesis by simp
qed

lemma round53_mono:
  assumes "(of_nat m :: rat) * 2 powi e \<le> of_nat n * 2 powi f"
  shows "num_le (round53 m e) (round53 n f)"
proof -
  define d where "d = min e f"
  define a where "a = nat (e - d)"
  define b where "b = nat (f - d)"
  have de: "d \<le> e" and df: "d \<le> f" by (simp_all add: d_def)
  have pos: "(0::rat) < 2 powi d" by simp
  have A: "\<And>k. (of_nat k :: rat) * 2 powi e = of_nat (k * 2 ^ a) * 2 powi d"
    unfolding a_def by (rule scale_exp[OF de])
  have B: "\<And>k. (of_nat k :: rat) * 2 powi f = of_nat (k * 2 ^ b) * 2 powi d"
    unfolding b_def by (rule scale_exp[OF df])
  from assms have "(of_nat (m * 2 ^ a) :: rat) * 2 powi d \<le> of_nat (n * 2 ^ b) * 2 powi d"
    unfolding A B .
  with pos have "(of_nat (m * 2 ^ a) :: rat) \<le> of_nat (n * 2 ^ b)"
    by (simp only: mult_le_cancel_right_pos)
  then have "m * 2 ^ a \<le> n * 2 ^ b" by (simp only: of_nat_le_iff)
  then have "rnd (m * 2 ^ a) \<le> rnd (n * 2 ^ b)" by (rule rnd_mono)
  then have "rnd m * 2 ^ a \<le> rnd n * 2 ^ b" by (simp only: rnd_pow2)
  then have "(of_nat (rnd m * 2 ^ a) :: rat) \<le> of_nat (rnd n * 2 ^ b)"
    by (simp only: of_nat_le_iff)
  with pos have "(of_nat (rnd m * 2 ^ a) :: rat) * 2 powi d \<le> of_nat (rnd n * 2 ^ b) * 2 powi d"
    by (simp only: mult_le_cancel_right_pos)
  then have "(of_nat (rnd m) :: rat) * 2 powi e \<le> of_nat (rnd n) * 2 powi f"
    unfolding A[symmetric] B[symmetric] .
  then show ?thesis by (simp add: num_le_def valof_round53)
qed

lemma fmul_mono:
  assumes "num_le a a'" and "num_le b b'"
  shows "num_le (fmul a b) (fmul a' b')"
proof -
  from assms obtain m1 e1 n1 f1 m2 e2 n2 f2
    where a: "a = Fin m1 e1" and a': "a' = Fin n1 f1"
      and b: "b = Fin m2 e2" and b': "b' = Fin n2 f2"
    by (cases a; cases a'; cases b; cases b') (auto simp: num_le_def)
  let ?x = "(of_nat m1 :: rat) * 2 powi e1" and ?x' = "(of_nat n1 :: rat) * 2 powi f1"
  let ?y = "(of_nat m2 :: rat) * 2 powi e2" and ?y' = "(of_nat n2 :: rat) * 2 powi f2"
  have le: "?x \<le> ?x'" "?y \<le> ?y'"
    using assms by (simp_all add: num_le_def a a' b b')
  have "?x * ?y \<le> ?x' * ?y'"
    using le(1) le(2) by (rule mult_mono) simp_all
  then have "(of_nat (m1 * m2) :: rat) * 2 powi (e1 + e2) \<le> of_nat (n1 * n2) * 2 powi (f1 + f2)"
    by (simp add: power_int_add mult_ac)
  then show ?thesis unfolding a a' b b' fmul.simps by (rule round53_mono)
qed

lemma fadd_exact:
  "(of_nat (m1 * 2 ^ nat (e1 - min e1 e2) + m2 * 2 ^ nat (e2 - min e1 e2)) :: rat) * 2 powi (min e1 e2)
     = of_nat m1 * 2 powi e1 + of_nat m2 * 2 powi e2"
proof -
  have "min e1 e2 \<le> e1" "min e1 e2 \<le> e2" by simp_all
  from scale_exp[OF this(1), of m1] scale_exp[OF this(2), of m2]
  show ?thesis by (simp only: of_nat_add distrib_right)
qed

lemma fadd_mono:
  assumes "num_le a a'" and "num_le b b'"
  shows "num_le (fadd a b) (fadd a' b')"
proof -
  from assms obtain m1 e1 n1 f1 m2 e2 n2 f2
    where a: "a = Fin m1 e1" and a': "a' = Fin n1 f1"
      and b: "b = Fin m2 e2" and b': "b' = Fin n2 f2"
    by (cases a; cases a'; cases b; cases b') (auto simp: num_le_def)
  have le: "(of_nat m1 :: rat) * 2 powi e1 \<le> of_nat n1 * 2 powi f1"
           "(of_nat m2 :: rat) * 2 powi e2 \<le> of_nat n2 * 2 powi f2"
    using assms by (simp_all add: num_le_def a a' b b')
  then have "(of_nat m1 :: rat) * 2 powi e1 + of_nat m2 * 2 powi e2
               \<le> of_nat n1 * 2 powi f1 + of_nat n2 * 2 powi f2"
    by (rule add_mono)
  then show ?thesis
    unfolding a a' b b' fadd.simps Let_def
    by (intro round53_mono) (simp only: fadd_exact)
qed

section \<open>Rounding is close\<close>

lemma rnd_error_nat:
  assumes "2 ^ 53 \<le> m"
  shows "rnd m \<le> m + 2 ^ (bitlen m - 54)"
    and "m \<le> rnd m + 2 ^ (bitlen m - 54)"
    and "2 ^ (bitlen m - 54) * 2 ^ 53 \<le> m"
proof -
  let ?k = "bitlen m - 53"
  let ?q = "m div 2 ^ ?k" and ?r = "m mod 2 ^ ?k" and ?h = "(2::nat) ^ (?k - 1)"
  have k1: "1 \<le> ?k" using shift_facts(2)[OF assms] .
  have h: "?h = 2 ^ (bitlen m - 54)" by simp
  have twice: "(2::nat) ^ ?k = 2 * ?h" using k1 by (cases ?k) simp_all
  have m: "m = ?q * 2 ^ ?k + ?r" by (rule div_mult_mod_eq[symmetric])
  have r: "?r < 2 * ?h" using twice by (metis mod_less_divisor zero_less_numeral zero_less_power)
  have big: "\<not> m < 2 ^ 53" using assms by simp
  have rndm: "rnd m = (if ?r < ?h \<or> (?r = ?h \<and> even ?q) then ?q else ?q + 1) * 2 ^ ?k"
    using big by (simp add: rnd_def Let_def)
  show "rnd m \<le> m + 2 ^ (bitlen m - 54)"
  proof (cases "?r < ?h \<or> (?r = ?h \<and> even ?q)")
    case True
    then have "rnd m = ?q * 2 ^ ?k" unfolding rndm by simp
    with m show ?thesis by linarith
  next
    case False
    then have "rnd m = ?q * 2 ^ ?k + 2 * ?h" and "?h \<le> ?r"
      unfolding rndm using twice by auto
    with m h show ?thesis by linarith
  qed
  show "m \<le> rnd m + 2 ^ (bitlen m - 54)"
  proof (cases "?r < ?h \<or> (?r = ?h \<and> even ?q)")
    case True
    then have "rnd m = ?q * 2 ^ ?k" and "?r \<le> ?h" unfolding rndm by auto
    with m h show ?thesis by linarith
  next
    case False
    then have "rnd m = ?q * 2 ^ ?k + 2 * ?h"
      unfolding rndm using twice by auto
    with m r h show ?thesis by linarith
  qed
  have "?h * 2 ^ 53 = 2 ^ 52 * 2 ^ ?k" using twice by simp
  also have "\<dots> \<le> ?q * 2 ^ ?k"
    using shift_facts(3)[OF assms] by (intro mult_right_mono) simp_all
  also have "\<dots> \<le> m" by (rule div_times_less_eq_dividend)
  finally show "2 ^ (bitlen m - 54) * 2 ^ 53 \<le> m" unfolding h .
qed

lemma rnd_close:
  "(of_nat m :: rat) * (1 - 1 / 2 ^ 53) \<le> of_nat (rnd m)"
  "(of_nat (rnd m) :: rat) \<le> of_nat m * (1 + 1 / 2 ^ 53)"
proof -
  have both: "(of_nat m :: rat) * (1 - 1 / 2 ^ 53) \<le> of_nat (rnd m)
              \<and> (of_nat (rnd m) :: rat) \<le> of_nat m * (1 + 1 / 2 ^ 53)"
  proof (cases "m < 2 ^ 53")
    case True
    then have "rnd m = m" by (simp add: rnd_def)
    moreover have "(0::rat) \<le> of_nat m" by simp
    ultimately show ?thesis by (simp add: algebra_simps)
  next
    case False
    then have ge: "2 ^ 53 \<le> m" by simp
    define h where "h = (2::nat) ^ (bitlen m - 54)"
    note e = rnd_error_nat[OF ge, folded h_def]
    have up: "(of_nat (rnd m) :: rat) \<le> of_nat m + of_nat h"
      using e(1) by (metis of_nat_add of_nat_le_iff)
    have lo: "(of_nat m :: rat) \<le> of_nat (rnd m) + of_nat h"
      using e(2) by (metis of_nat_add of_nat_le_iff)
    have "(of_nat (h * 2 ^ 53) :: rat) \<le> of_nat m"
      using e(3) by (simp only: of_nat_le_iff)
    then have "(of_nat h :: rat) * 2 ^ 53 \<le> of_nat m" by simp
    then have hm: "(of_nat h :: rat) \<le> of_nat m / 2 ^ 53"
      by (simp add: pos_le_divide_eq)
    from up lo hm show ?thesis by (simp add: algebra_simps)
  qed
  from both show "(of_nat m :: rat) * (1 - 1 / 2 ^ 53) \<le> of_nat (rnd m)"
    and "(of_nat (rnd m) :: rat) \<le> of_nat m * (1 + 1 / 2 ^ 53)" by simp_all
qed

lemma round53_close:
  "\<exists>v. valof (round53 m e) = Some v
       \<and> (of_nat m * 2 powi e) * (1 - 1 / 2 ^ 53) \<le> v
       \<and> v \<le> (of_nat m * 2 powi e) * (1 + 1 / 2 ^ 53)"
proof -
  have pos: "(0::rat) \<le> 2 powi e" by simp
  have "(of_nat m :: rat) * (1 - 1 / 2 ^ 53) * 2 powi e \<le> of_nat (rnd m) * 2 powi e"
    using rnd_close(1)[of m] pos by (rule mult_right_mono)
  moreover have "(of_nat (rnd m) :: rat) * 2 powi e \<le> of_nat m * (1 + 1 / 2 ^ 53) * 2 powi e"
    using rnd_close(2)[of m] pos by (rule mult_right_mono)
  ultimately show ?thesis
    by (simp add: valof_round53 mult_ac)
qed

lemma fmul_close:
  assumes "valof a = Some x" and "valof b = Some y"
  shows "\<exists>v. valof (fmul a b) = Some v
           \<and> (x * y) * (1 - 1 / 2 ^ 53) \<le> v \<and> v \<le> (x * y) * (1 + 1 / 2 ^ 53)"
proof -
  from assms obtain m1 e1 m2 e2 where a: "a = Fin m1 e1" and b: "b = Fin m2 e2"
    by (cases a; cases b) auto
  have xy: "x * y = of_nat (m1 * m2) * 2 powi (e1 + e2)"
    using assms by (auto simp: a b power_int_add)
  show ?thesis unfolding a b fmul.simps xy by (rule round53_close)
qed

lemma fadd_close:
  assumes "valof a = Some x" and "valof b = Some y"
  shows "\<exists>v. valof (fadd a b) = Some v
           \<and> (x + y) * (1 - 1 / 2 ^ 53) \<le> v \<and> v \<le> (x + y) * (1 + 1 / 2 ^ 53)"
proof -
  from assms obtain m1 e1 m2 e2 where a: "a = Fin m1 e1" and b: "b = Fin m2 e2"
    by (cases a; cases b) auto
  have xy: "x + y = of_nat (m1 * 2 ^ nat (e1 - min e1 e2) + m2 * 2 ^ nat (e2 - min e1 e2))
                      * 2 powi (min e1 e2)"
    using assms by (simp only: fadd_exact) (auto simp: a b)
  show ?thesis unfolding a b fadd.simps Let_def xy by (rule round53_close)
qed

lemma gray_error_arith:
  fixes r g b p1 p2 p3 s1 v :: rat
  assumes "0 \<le> r" "r \<le> 255" "0 \<le> g" "g \<le> 255" "0 \<le> b" "b \<le> 255"
    and "r * (5404319552844595 / 2 ^ 54) * (1 - 1 / 2 ^ 53) \<le> p1"
      "p1 \<le> r * (5404319552844595 / 2 ^ 54) * (1 + 1 / 2 ^ 53)"
    and "g * (5314247560297185 / 2 ^ 53) * (1 - 1 / 2 ^ 53) \<le> p2"
      "p2 \<le> g * (5314247560297185 / 2 ^ 53) * (1 + 1 / 2 ^ 53)"
    and "b * (7926335344172073 / 2 ^ 56) * (1 - 1 / 2 ^ 53) \<le> p3"
      "p3 \<le> b * (7926335344172073 / 2 ^ 56) * (1 + 1 / 2 ^ 53)"
    and "(p1 + p2) * (1 - 1 / 2 ^ 53) \<le> s1" "s1 \<le> (p1 + p2) * (1 + 1 / 2 ^ 53)"
    and "(s1 + p3) * (1 - 1 / 2 ^ 53) \<le> v" "v \<le> (s1 + p3) * (1 + 1 / 2 ^ 53)"
  shows "\<bar>v - (3 / 10 * r + 59 / 100 * g + 11 / 100 * b)\<bar> \<le> 1 / 2 ^ 43"
proof -
  have "v - (3 / 10 * r + 59 / 100 * g + 11 / 100 * b) \<le> 1 / 2 ^ 43"
    using assms by (simp add: algebra_simps)
  moreover have "- (1 / 2 ^ 43) \<le> v - (3 / 10 * r + 59 / 100 * g + 11 / 100 * b)"
    using assms by (simp add: algebra_simps)
  ultimately show ?thesis by (simp only: abs_le_iff) simp
qed

lemma byte_value: "(0::rat) \<le> of_nat (unat (w :: 8 word)) \<and> (of_nat (unat w) :: rat) \<le> 255"
proof -
  have "unat w < 2 ^ 8" using unsigned_less[of w, where ?'a = nat] by simp
  then have "unat w \<le> 255" by simp
  then have "(of_nat (unat w) :: rat) \<le> of_nat 255" by (simp only: of_nat_le_iff)
  then have "(of_nat (unat w) :: rat) \<le> 255" by (simp only: of_nat_numeral)
  moreover have "(0::rat) \<le> of_nat (unat w)" by (rule of_nat_0_le_iff)
  ultimately show ?thesis by (intro conjI)
qed

lemma getGrayscale_error:
  "\<exists>v. valof (getGrayscale (num (unat (R :: 8 word))) (num (unat (G :: 8 word)))
                (num (unat (B :: 8 word)))) = Some v
       \<and> \<bar>v - (3 / 10 * of_nat (unat R) + 59 / 100 * of_nat (unat G)
                 + 11 / 100 * of_nat (unat B))\<bar> \<le> 1 / 2 ^ 43"
proof -
  define r :: rat where "r = of_nat (unat R)"
  define g :: rat where "g = of_nat (unat G)"
  define b :: rat where "b = of_nat (unat B)"
  have rng: "0 \<le> r" "r \<le> 255" "0 \<le> g" "g \<le> 255" "0 \<le> b" "b \<le> 255"
    using byte_value[of R] byte_value[of G] byte_value[of B] by (simp_all add: r_def g_def b_def)
  have vr: "valof (num (unat R)) = Some r" and vg: "valof (num (unat G)) = Some g"
    and vb: "valof (num (unat B)) = Some b"
    by (simp_all add: num_def r_def g_def b_def)
  from fmul_close[OF vr weight_literals(1)] obtain p1 where
    p1: "valof (fmul (num (unat R)) lit_0_3) = Some p1"
      "r * (5404319552844595 / 2 ^ 54) * (1 - 1 / 2 ^ 53) \<le> p1"
      "p1 \<le> r * (5404319552844595 / 2 ^ 54) * (1 + 1 / 2 ^ 53)" by blast
  from fmul_close[OF vg weight_literals(2)] obtain p2 where
    p2: "valof (fmul (num (unat G)) lit_0_59) = Some p2"
      "g * (5314247560297185 / 2 ^ 53) * (1 - 1 / 2 ^ 53) \<le> p2"
      "p2 \<le> g * (5314247560297185 / 2 ^ 53) * (1 + 1 / 2 ^ 53)" by blast
  from fmul_close[OF vb weight_literals(3)] obtain p3 where
    p3: "valof (fmul (num (unat B)) lit_0_11) = Some p3"
      "b * (7926335344172073 / 2 ^ 56) * (1 - 1 / 2 ^ 53) \<le> p3"
      "p3 \<le> b * (7926335344172073 / 2 ^ 56) * (1 + 1 / 2 ^ 53)" by blast
  from fadd_close[OF p1(1) p2(1)] obtain s1 where
    s1: "valof (fadd (fmul (num (unat R)) lit_0_3) (fmul (num (unat G)) lit_0_59)) = Some s1"
      "(p1 + p2) * (1 - 1 / 2 ^ 53) \<le> s1" "s1 \<le> (p1 + p2) * (1 + 1 / 2 ^ 53)" by blast
  from fadd_close[OF s1(1) p3(1)] obtain v where
    v: "valof (getGrayscale (num (unat R)) (num (unat G)) (num (unat B))) = Some v"
      "(s1 + p3) * (1 - 1 / 2 ^ 53) \<le> v" "v \<le> (s1 + p3) * (1 + 1 / 2 ^ 53)"
    unfolding getGrayscale_def by blast
  have "\<bar>v - (3 / 10 * r + 59 / 100 * g + 11 / 100 * b)\<bar> \<le> 1 / 2 ^ 43"
    using rng p1(2,3) p2(2,3) p3(2,3) s1(2,3) v(2,3) by (rule gray_error_arith)
  with v(1) show ?thesis unfolding r_def g_def b_def by blast
qed

section \<open>The loop, pixel by pixel\<close>

lemma lt3_cases: "c < (3::nat) \<Longrightarrow> c = 0 \<or> c = 1 \<or> c = 2"
  by arith

lemma length_anaglyph_pixel [simp]:
  "length (anaglyph_pixel mode i leftPixels rightPixels) = length leftPixels"
  by (simp add: anaglyph_pixel_def Let_def)

lemma anaglyph_pixel_other:
  "j \<noteq> i \<Longrightarrow> j \<noteq> i + 1 \<Longrightarrow> j \<noteq> i + 2 \<Longrightarrow>
   anaglyph_pixel mode i leftPixels rightPixels ! j = leftPixels ! j"
  by (simp add: anaglyph_pixel_def Let_def)

lemma anaglyph_pixel_red:
  assumes "i + 2 < length leftPixels"
  shows "anaglyph_pixel mode i leftPixels rightPixels ! i
           = toUint8Clamp (R_out mode (rd leftPixels i)
               (getGrayscale (rd leftPixels i) (rd leftPixels (i + 1)) (rd leftPixels (i + 2)))
               (getGrayscale (rd rightPixels i) (rd rightPixels (i + 1)) (rd rightPixels (i + 2))))"
  using assms by (simp add: anaglyph_pixel_def Let_def)

lemma anaglyph_pixel_green:
  assumes "i + 2 < length leftPixels"
  shows "anaglyph_pixel mode i leftPixels rightPixels ! (i + 1)
           = toUint8Clamp (G_out mode (rd leftPixels (i + 1))
               (getGrayscale (rd leftPixels i) (rd leftPixels (i + 1)) (rd leftPixels (i + 2)))
               (getGrayscale (rd rightPixels i) (rd rightPixels (i + 1)) (rd rightPixels (i + 2))))"
  using assms by (simp add: anaglyph_pixel_def Let_def)

lemma anaglyph_pixel_blue:
  assumes "i + 2 < length leftPixels"
  shows "anaglyph_pixel mode i leftPixels rightPixels ! (i + 2)
           = toUint8Clamp (B_out mode (rd leftPixels (i + 2))
               (getGrayscale (rd leftPixels i) (rd leftPixels (i + 1)) (rd leftPixels (i + 2)))
               (getGrayscale (rd rightPixels i) (rd rightPixels (i + 1)) (rd rightPixels (i + 2))))"
  using assms by (simp add: anaglyph_pixel_def Let_def)

lemma rd_pixel_at:
  assumes "4 * p + 2 < length a"
  shows "rd a (4 * p) = spec_raw (pixel_at a p) 0"
    and "rd a (4 * p + 1) = spec_raw (pixel_at a p) 1"
    and "rd a (4 * p + 2) = spec_raw (pixel_at a p) 2"
    and "getGrayscale (rd a (4 * p)) (rd a (4 * p + 1)) (rd a (4 * p + 2)) = spec_gray (pixel_at a p)"
  using assms by (simp_all add: rd_def pixel_at_def spec_raw_def spec_gray_def)

lemma anaglyph_pixel_written:
  assumes "c < 3" and "4 * p + 2 < length leftPixels" and "4 * p + 2 < length rightPixels"
  shows "anaglyph_pixel mode (4 * p) leftPixels rightPixels ! (4 * p + c)
           = spec_output mode c (pixel_at leftPixels p) (pixel_at rightPixels p)"
proof -
  note rdL = rd_pixel_at[OF assms(2), symmetric] and rdR = rd_pixel_at[OF assms(3), symmetric]
  note spec = spec_output_def spec_leftContribution_def spec_rightContribution_def
  consider "c = 0" | "c = 1" | "c = 2" using lt3_cases[OF assms(1)] by blast
  then show ?thesis
  proof cases
    case 1
    show ?thesis
      unfolding 1 add_0_right spec rdL rdR anaglyph_pixel_red[OF assms(2)] R_out_def ..
  next
    case 2
    show ?thesis
      unfolding 2 spec rdL rdR anaglyph_pixel_green[OF assms(2)] G_out_def ..
  next
    case 3
    show ?thesis
      unfolding 3 spec rdL rdR anaglyph_pixel_blue[OF assms(2)] B_out_def ..
  qed
qed

lemma length_anaglyph_loop:
  "length (anaglyph_loop mode i leftPixels rightPixels) = length leftPixels"
proof (induction mode i leftPixels rightPixels rule: anaglyph_loop.induct)
  case (1 mode i leftPixels rightPixels)
  then show ?case by (simp add: anaglyph_loop.simps[of mode i leftPixels])
qed

lemma anaglyph_loop_before:
  "j < i \<Longrightarrow> anaglyph_loop mode i leftPixels rightPixels ! j = leftPixels ! j"
proof (induction mode i leftPixels rightPixels rule: anaglyph_loop.induct)
  case (1 mode i leftPixels rightPixels)
  show ?case
  proof (cases "i < length leftPixels")
    case True
    have "anaglyph_loop mode i leftPixels rightPixels ! j
            = anaglyph_pixel mode i leftPixels rightPixels ! j"
      using 1 True by (simp add: anaglyph_loop.simps[of mode i leftPixels])
    also have "\<dots> = leftPixels ! j"
      using 1(2) by (intro anaglyph_pixel_other) simp_all
    finally show ?thesis .
  next
    case False
    then show ?thesis by (simp add: anaglyph_loop.simps[of mode i leftPixels])
  qed
qed

lemma anaglyph_loop_alpha:
  "i mod 4 = 0 \<Longrightarrow> j mod 4 = 3 \<Longrightarrow>
   anaglyph_loop mode i leftPixels rightPixels ! j = leftPixels ! j"
proof (induction mode i leftPixels rightPixels rule: anaglyph_loop.induct)
  case (1 mode i leftPixels rightPixels)
  show ?case
  proof (cases "i < length leftPixels")
    case True
    have "anaglyph_loop mode i leftPixels rightPixels ! j
            = anaglyph_pixel mode i leftPixels rightPixels ! j"
      using 1 True by (simp add: anaglyph_loop.simps[of mode i leftPixels])
    also have "\<dots> = leftPixels ! j"
      using 1(2,3) by (intro anaglyph_pixel_other) presburger+
    finally show ?thesis .
  next
    case False
    then show ?thesis by (simp add: anaglyph_loop.simps[of mode i leftPixels])
  qed
qed

lemma anaglyph_loop_pixel:
  "c < 3 \<Longrightarrow> k \<le> p \<Longrightarrow> i = 4 * k \<Longrightarrow>
   4 * p + 2 < length leftPixels \<Longrightarrow> 4 * p + 2 < length rightPixels \<Longrightarrow>
   anaglyph_loop mode i leftPixels rightPixels ! (4 * p + c)
     = spec_output mode c (pixel_at leftPixels p) (pixel_at rightPixels p)"
proof (induction mode i leftPixels rightPixels arbitrary: k rule: anaglyph_loop.induct)
  case (1 mode i leftPixels rightPixels)
  let ?next = "anaglyph_pixel mode i leftPixels rightPixels"
  note c = \<open>c < 3\<close> and kp = \<open>k \<le> p\<close> and i = \<open>i = 4 * k\<close>
    and lenL = \<open>4 * p + 2 < length leftPixels\<close>
    and lenR = \<open>4 * p + 2 < length rightPixels\<close>
  have run: "i < length leftPixels" using kp i lenL by simp
  then have unfold: "anaglyph_loop mode i leftPixels rightPixels
                       = anaglyph_loop mode (i + 4) ?next rightPixels"
    by (simp add: anaglyph_loop.simps[of mode i leftPixels])
  show ?case
  proof (cases "k = p")
    case True
    have "anaglyph_loop mode (i + 4) ?next rightPixels ! (4 * p + c) = ?next ! (4 * p + c)"
      using c i True by (intro anaglyph_loop_before) simp
    also have "\<dots> = spec_output mode c (pixel_at leftPixels p) (pixel_at rightPixels p)"
      unfolding i True using c lenL lenR by (rule anaglyph_pixel_written)
    finally show ?thesis unfolding unfold .
  next
    case False
    with kp have k: "Suc k \<le> p" by simp
    have same: "pixel_at ?next p = pixel_at leftPixels p"
      using k i by (simp add: pixel_at_def anaglyph_pixel_other)
    have "anaglyph_loop mode (i + 4) ?next rightPixels ! (4 * p + c)
            = spec_output mode c (pixel_at ?next p) (pixel_at rightPixels p)"
      using run c k i lenL lenR by (intro "1.IH"[of "Suc k"]) simp_all
    then show ?thesis unfolding unfold same .
  qed
qed

section \<open>The cycle and its scheduling\<close>

lemma processFrame_stopped:
  "paused s \<or> ended s \<Longrightarrow> processFrame srcL srcR s = s\<lparr>animationFrameId := None\<rparr>"
  by (simp add: processFrame_def)

lemma get_mode_Own: "ANAGLYPH_MODES key = Some mode \<Longrightarrow> get_mode key = Own mode"
  by (simp add: get_mode_def)

lemma processFrame_skipped:
  assumes "\<not> paused s" and "\<not> ended s"
    and "get_mode (anaglyphMode s) = Undefined \<or> canvas_width s = 0 \<or> canvas_height s = 0"
  shows "processFrame srcL srcR s = request_frame s"
  using assms by (auto simp: processFrame_def Let_def)

lemma zero_native_width_skipped:
  assumes "\<not> paused s" and "\<not> ended s"
    and "canvas_width s = videoWidth s div 2" and "videoWidth s = 0"
  shows "processFrame srcL srcR s = request_frame s"
  using assms by (intro processFrame_skipped) simp_all

lemma processFrame_converted:
  assumes "\<not> paused s" and "\<not> ended s"
    and "ANAGLYPH_MODES (anaglyphMode s) = Some mode"
    and "canvas_width s \<noteq> 0" and "canvas_height s \<noteq> 0"
  shows "processFrame srcL srcR s =
           request_frame (s\<lparr>canvas := anaglyph_loop mode 0 srcL srcR,
             calls := calls s @ [DrawImage, GetImageData, DrawImage, GetImageData, PutImageData]\<rparr>)"
  using assms by (simp add: processFrame_def Let_def get_mode_Own conversion_def)

lemma processFrame_thrown:
  assumes "throws srcL s"
  shows "processFrame srcL srcR s =
           s\<lparr>canvas := srcR,
             calls := calls s @ [DrawImage, GetImageData, DrawImage, GetImageData],
             uncaught := uncaught s @ [TypeError]\<rparr>"
  using assms by (simp add: throws_def processFrame_def Let_def conversion_def)

lemma processFrame_requests:
  "frame_requests (processFrame srcL srcR s) =
     (if paused s \<or> ended s \<or> throws srcL s then frame_requests s
      else frame_requests s @ [next_handle s])"
  by (cases "get_mode (anaglyphMode s)")
     (auto simp: processFrame_def Let_def request_frame_def conversion_def throws_def
       split: sum.splits)

lemma processFrame_id:
  "animationFrameId (processFrame srcL srcR s) =
     (if paused s \<or> ended s then None
      else if throws srcL s then animationFrameId s
      else Some (next_handle s))"
  by (cases "get_mode (anaglyphMode s)")
     (auto simp: processFrame_def Let_def request_frame_def conversion_def throws_def
       split: sum.splits)

lemma processFrame_next_handle:
  "next_handle (processFrame srcL srcR s) =
     (if paused s \<or> ended s \<or> throws srcL s then next_handle s
      else Suc (next_handle s))"
  by (cases "get_mode (anaglyphMode s)")
     (auto simp: processFrame_def Let_def request_frame_def conversion_def throws_def
       split: sum.splits)

lemma one_cycle_step: "one_cycle s \<Longrightarrow> one_cycle (step e s)"
proof (cases e)
  case Video_selected
  assume "one_cycle s"
  then show ?thesis unfolding Video_selected
    by (auto simp: one_cycle_def video_selected_def split: option.splits)
next
  case (Loadedmetadata w h)
  assume "one_cycle s"
  then show ?thesis unfolding Loadedmetadata
    by (auto simp: one_cycle_def onloadedmetadata_def)
next
  case Canplay
  assume "one_cycle s"
  then show ?thesis unfolding Canplay
    by (auto simp: one_cycle_def attemptPlayback_def)
next
  case Click_playPause
  assume "one_cycle s"
  then show ?thesis unfolding Click_playPause
    by (auto simp: one_cycle_def togglePlayback_def attemptPlayback_def)
next
  case (Click_mode name)
  assume "one_cycle s"
  then show ?thesis unfolding Click_mode
    by (auto simp: one_cycle_def)
next
  case Play_fulfilled
  assume "one_cycle s"
  then show ?thesis unfolding Play_fulfilled
    by (auto simp: one_cycle_def play_fulfilled_def no_id_def request_frame_def Let_def)
next
  case Play_rejected
  assume "one_cycle s"
  then show ?thesis unfolding Play_rejected
    by (auto simp: one_cycle_def play_rejected_def)
next
  case (Animation_frame srcL srcR)
  assume "one_cycle s"
  then show ?thesis unfolding Animation_frame
    by (auto simp: one_cycle_def processFrame_requests processFrame_id processFrame_next_handle
        split: list.splits)
next
  case Playback_ended
  assume "one_cycle s"
  then show ?thesis unfolding Playback_ended
    by (auto simp: one_cycle_def)
qed

lemma one_cycle_run: "one_cycle s \<Longrightarrow> one_cycle (run es s)"
  unfolding run_def by (induction es arbitrary: s) (simp_all add: one_cycle_step)

lemma one_cycle_initial: "one_cycle (initial w h)"
  by (simp add: one_cycle_def initial_def)

lemma at_most_one_request: "length (frame_requests (run es (initial w h))) \<le> 1"
  using one_cycle_run[OF one_cycle_initial, of es w h] by (auto simp: one_cycle_def)

lemma stalled_step: "stalled s \<Longrightarrow> stalled (step e s)"
  by (cases e)
     (auto simp: stalled_def no_id_def video_selected_def onloadedmetadata_def
       attemptPlayback_def togglePlayback_def play_fulfilled_def play_rejected_def Let_def
       split: option.splits)

lemma stalled_run: "stalled s \<Longrightarrow> stalled (run es s)"
  unfolding run_def by (induction es arbitrary: s) (simp_all add: stalled_step)

section \<open>The claims about the transform\<close>

lemma preset_masks:
  assumes "ANAGLYPH_MODES name = Some mode" and "c < 3"
  shows "left mode ! c + right mode ! c = 1"
  using assms lt3_cases[of c]
  by (auto simp: ANAGLYPH_MODES_def split: if_splits)

lemma dom_ANAGLYPH_MODES:
  "dom ANAGLYPH_MODES = {''red_cyan'', ''green_magenta'', ''blue_yellow''}"
  by (auto simp: ANAGLYPH_MODES_def split: if_splits)

lemmas number_eval = num_def lit_0_3_def lit_0_59_def lit_0_11_def round53_def bitlen.simps Let_def

lemmas transform_eval = getGrayscale_def R_out_def G_out_def B_out_def ANAGLYPH_MODES_def
  rd_def anaglyph_pixel_def anaglyph_loop.simps

text \<open>
  C2: in each of the three built-in presets (and the table has no other), at every channel
  index the left and the right mask entries add up to 1: exactly one of them is 1.
\<close>

theorem preset_masks_complementary:
  "dom ANAGLYPH_MODES = {''red_cyan'', ''green_magenta'', ''blue_yellow''}
   \<and> (\<forall>name mode c. ANAGLYPH_MODES name = Some mode \<longrightarrow> c < 3 \<longrightarrow>
         left mode ! c + right mode ! c = 1
         \<and> ((left mode ! c = 1) \<noteq> (right mode ! c = 1)))"
proof (intro conjI allI impI)
  show "dom ANAGLYPH_MODES = {''red_cyan'', ''green_magenta'', ''blue_yellow''}"
    by (rule dom_ANAGLYPH_MODES)
next
  fix name mode c
  assume "ANAGLYPH_MODES name = Some mode" and "c < (3::nat)"
  then have sum: "left mode ! c + right mode ! c = 1" by (rule preset_masks)
  then show "left mode ! c + right mode ! c = 1" .
  from sum show "(left mode ! c = 1) \<noteq> (right mode ! c = 1)" by auto
qed

theorem preset_masks_complementary_witness:
  "ANAGLYPH_MODES ''green_magenta'' = Some \<lparr>left = [0, 1, 0], right = [1, 0, 1]\<rparr>
   \<and> (1::nat) < 3
   \<and> left \<lparr>left = [0, 1, 0], right = [1, 0, 1]\<rparr> ! 1
       + right \<lparr>left = [0, 1, 0], right = [1, 0, 1]\<rparr> ! 1 = (1::nat)"
proof -
  have h: "ANAGLYPH_MODES ''green_magenta'' = Some \<lparr>left = [0, 1, 0], right = [1, 0, 1]\<rparr>"
    by (simp add: ANAGLYPH_MODES_def)
  have c: "(1::nat) < 3" by simp
  from preset_masks_complementary h c show ?thesis by simp
qed

text \<open>
  The sums are sums of doubles: \<^verbatim>\<open>0.3 + 0.59 + 0.11\<close> is one unit in the last place
  below 1, and the grayscale of (0, 44, 14), 27.5 in exact arithmetic, is stored as 27.
\<close>

lemma getGrayscale_ones:
  "valof (getGrayscale (num 1) (num 1) (num 1)) = Some (1 - 1 / 2 ^ 53)"
  by (simp add: getGrayscale_def number_eval)

lemma getGrayscale_below_tie:
  "valof (getGrayscale (num 0) (num 44) (num 14)) = Some (55 / 2 - 1 / 2 ^ 48)"
  "toUint8Clamp (getGrayscale (num 0) (num 44) (num 14)) = 27"
  by (simp_all add: getGrayscale_def number_eval)

text \<open>
  C3, as the code has it: for all bytes R, G, B the grayscale function returns
  0.3 R + 0.59 G + 0.11 B as double arithmetic evaluates it, a value within \<open>2\<^sup>-\<^sup>4\<^sup>3\<close> of
  the exact weighted sum; at (255, 255, 255) it is exactly 255 and at (0, 0, 0) exactly 0.
\<close>

theorem getGrayscale_near_weighted_sum:
  "(\<exists>v. valof (getGrayscale (num (unat (R :: 8 word))) (num (unat (G :: 8 word)))
                (num (unat (B :: 8 word)))) = Some v
        \<and> \<bar>v - (3 / 10 * of_nat (unat R) + 59 / 100 * of_nat (unat G)
                  + 11 / 100 * of_nat (unat B))\<bar> \<le> 1 / 2 ^ 43)
   \<and> valof (getGrayscale (num (unat (255 :: 8 word))) (num (unat (255 :: 8 word)))
              (num (unat (255 :: 8 word)))) = Some 255
   \<and> valof (getGrayscale (num (unat (0 :: 8 word))) (num (unat (0 :: 8 word)))
              (num (unat (0 :: 8 word)))) = Some 0"
proof (intro conjI)
  show "\<exists>v. valof (getGrayscale (num (unat R)) (num (unat G)) (num (unat B))) = Some v
        \<and> \<bar>v - (3 / 10 * of_nat (unat R) + 59 / 100 * of_nat (unat G)
                  + 11 / 100 * of_nat (unat B))\<bar> \<le> 1 / 2 ^ 43"
    by (rule getGrayscale_error)
  show "valof (getGrayscale (num (unat (255 :: 8 word))) (num (unat (255 :: 8 word)))
              (num (unat (255 :: 8 word)))) = Some 255"
    by (simp add: getGrayscale_def number_eval)
  show "valof (getGrayscale (num (unat (0 :: 8 word))) (num (unat (0 :: 8 word)))
              (num (unat (0 :: 8 word)))) = Some 0"
    by (simp add: getGrayscale_def number_eval)
qed

theorem getGrayscale_near_weighted_sum_counterexample:
  "valof (getGrayscale (num (unat (1 :: 8 word))) (num (unat (1 :: 8 word)))
            (num (unat (1 :: 8 word)))) = Some (1 - 1 / 2 ^ 53)
   \<and> valof (getGrayscale (num (unat (1 :: 8 word))) (num (unat (1 :: 8 word)))
            (num (unat (1 :: 8 word)))) \<noteq> Some (3 / 10 * 1 + 59 / 100 * 1 + 11 / 100 * 1)"
  by (simp add: getGrayscale_def number_eval)

text \<open>
  C4, as the code has it: for the left pixel (200, 50, 50) and the right pixel (50, 200, 50)
  under Red/Cyan, the red output is 200 and the green and blue outputs are both
  grayscale(50, 200, 50), which is 138.5 (not 147.5); the bytes stored are 200, 138, 138.
\<close>

theorem red_cyan_example:
  "valof (R_out (the (ANAGLYPH_MODES ''red_cyan'')) (num 200)
            (getGrayscale (num 200) (num 50) (num 50))
            (getGrayscale (num 50) (num 200) (num 50))) = Some 200
   \<and> valof (G_out (the (ANAGLYPH_MODES ''red_cyan'')) (num 50)
            (getGrayscale (num 200) (num 50) (num 50))
            (getGrayscale (num 50) (num 200) (num 50))) = Some (277 / 2)
   \<and> valof (B_out (the (ANAGLYPH_MODES ''red_cyan'')) (num 50)
            (getGrayscale (num 200) (num 50) (num 50))
            (getGrayscale (num 50) (num 200) (num 50))) = Some (277 / 2)
   \<and> valof (getGrayscale (num 50) (num 200) (num 50)) = Some (277 / 2)
   \<and> anaglyph_loop (the (ANAGLYPH_MODES ''red_cyan'')) 0
        [200, 50, 50, 255] [50, 200, 50, 255] = [200, 138, 138, 255]"
  by (simp add: transform_eval number_eval)

theorem red_cyan_example_counterexample:
  "valof (G_out (the (ANAGLYPH_MODES ''red_cyan'')) (num 50)
            (getGrayscale (num 200) (num 50) (num 50))
            (getGrayscale (num 50) (num 200) (num 50))) = Some (295 / 2 - 9)
   \<and> valof (G_out (the (ANAGLYPH_MODES ''red_cyan'')) (num 50)
            (getGrayscale (num 200) (num 50) (num 50))
            (getGrayscale (num 50) (num 200) (num 50))) \<noteq> Some (295 / 2)"
  by (simp add: transform_eval number_eval)

text \<open>
  C1: for every preset and every pixel position of the two buffers, each of the three bytes
  that the loop stores is the left contribution plus the right contribution of that
  channel, as the specification defines them from the two input pixels, clamped to
  [0, 255] and rounded to an integer.
\<close>

theorem loop_matches_transform:
  assumes "ANAGLYPH_MODES name = Some mode" and "c < 3"
    and "4 * p + 2 < length leftPixels" and "4 * p + 2 < length rightPixels"
  shows "anaglyph_loop mode 0 leftPixels rightPixels ! (4 * p + c)
           = spec_output mode c (pixel_at leftPixels p) (pixel_at rightPixels p)"
  using assms(2) _ _ assms(3,4) by (rule anaglyph_loop_pixel[where k = 0]) simp_all

theorem loop_matches_transform_witness:
  "ANAGLYPH_MODES ''blue_yellow'' = Some \<lparr>left = [0, 0, 1], right = [1, 1, 0]\<rparr>
   \<and> (1::nat) < 3
   \<and> 4 * 1 + 2 < length [1, 2, 3, 4, 200, 50, 50, 255 :: 8 word]
   \<and> 4 * 1 + 2 < length [5, 6, 7, 8, 0, 44, 14, 255 :: 8 word]
   \<and> anaglyph_loop \<lparr>left = [0, 0, 1], right = [1, 1, 0]\<rparr> 0
        [1, 2, 3, 4, 200, 50, 50, 255] [5, 6, 7, 8, 0, 44, 14, 255] ! (4 * 1 + 1)
       = spec_output \<lparr>left = [0, 0, 1], right = [1, 1, 0]\<rparr> 1
           (pixel_at [1, 2, 3, 4, 200, 50, 50, 255] 1) (pixel_at [5, 6, 7, 8, 0, 44, 14, 255] 1)
   \<and> spec_output \<lparr>left = [0, 0, 1], right = [1, 1, 0]\<rparr> 1
           (pixel_at [1, 2, 3, 4, 200, 50, 50, 255] 1) (pixel_at [5, 6, 7, 8, 0, 44, 14, 255] 1)
       = 27"
proof -
  have h: "ANAGLYPH_MODES ''blue_yellow'' = Some \<lparr>left = [0, 0, 1], right = [1, 1, 0]\<rparr>"
    by (simp add: ANAGLYPH_MODES_def)
  have c: "(1::nat) < 3" by simp
  have l: "4 * 1 + 2 < length [1, 2, 3, 4, 200, 50, 50, 255 :: 8 word]" by simp
  have r: "4 * 1 + 2 < length [5, 6, 7, 8, 0, 44, 14, 255 :: 8 word]" by simp
  have v: "spec_output \<lparr>left = [0, 0, 1], right = [1, 1, 0]\<rparr> 1
           (pixel_at [1, 2, 3, 4, 200, 50, 50, 255] 1) (pixel_at [5, 6, 7, 8, 0, 44, 14, 255] 1)
       = 27"
    by (simp add: spec_output_def spec_leftContribution_def spec_rightContribution_def
        spec_raw_def spec_gray_def pixel_at_def getGrayscale_def number_eval)
  from loop_matches_transform[OF h c l r] h c l r v show ?thesis by blast
qed

text \<open>
  C9: the loop leaves the fourth byte of every pixel position, its alpha value, as it was,
  and the buffer keeps its length: only red, green and blue bytes are written.
\<close>

theorem alpha_untouched:
  "anaglyph_loop mode 0 leftPixels rightPixels ! (4 * p + 3) = leftPixels ! (4 * p + 3)
   \<and> length (anaglyph_loop mode 0 leftPixels rightPixels) = length leftPixels"
proof
  show "anaglyph_loop mode 0 leftPixels rightPixels ! (4 * p + 3) = leftPixels ! (4 * p + 3)"
    by (rule anaglyph_loop_alpha) simp_all
  show "length (anaglyph_loop mode 0 leftPixels rightPixels) = length leftPixels"
    by (rule length_anaglyph_loop)
qed

lemma num_le_refl: "num_le (Fin m e) (Fin m e)"
  by (simp add: num_le_def)

lemma num_le_num: "n \<le> k \<Longrightarrow> num_le (num n) (num k)"
  by (simp add: num_le_def num_def)

lemma num_le_byte: "num_le (num (unat (w :: 8 word))) (num 255)"
proof -
  have "unat w < 2 ^ 8" using unsigned_less[of w, where ?'a = nat] by simp
  then have "unat w \<le> 255" by simp
  then show ?thesis by (rule num_le_num)
qed

lemma num_le_valof:
  assumes "num_le x y" and "valof y = valof z"
  shows "num_le x z"
  using assms by (simp add: num_le_def split: option.splits)

lemma num_le_in_byte_range:
  assumes "num_le x (num 255)"
  shows "in_byte_range x"
proof (cases x)
  case (Fin m e)
  with assms show ?thesis by (simp add: num_le_def in_byte_range_def num_def)
next
  case NaN
  with assms show ?thesis by (simp add: num_le_def)
qed

lemma getGrayscale_white:
  "valof (getGrayscale (num 255) (num 255) (num 255)) = valof (num 255)"
  by (simp add: getGrayscale_def number_eval)

lemma getGrayscale_le_255:
  "num_le (getGrayscale (num (unat (r :: 8 word))) (num (unat (g :: 8 word)))
             (num (unat (b :: 8 word)))) (num 255)"
proof -
  have "num_le (getGrayscale (num (unat r)) (num (unat g)) (num (unat b)))
               (getGrayscale (num 255) (num 255) (num 255))"
    unfolding getGrayscale_def lit_0_3_def lit_0_59_def lit_0_11_def
    by (intro fadd_mono fmul_mono num_le_byte num_le_refl)
  then show ?thesis using getGrayscale_white by (rule num_le_valof)
qed

lemma channel_le_255:
  assumes masks: "lm + rm = (1::nat)"
    and raw: "num_le raw (num 255)"
    and grayL: "num_le grayL (num 255)"
    and grayR: "num_le grayR (num 255)"
  shows "num_le (fadd (fmul (if lm = 1 then raw else grayL) (num lm))
                      (fmul (if rm = 1 then grayR else num 0) (num rm))) (num 255)"
proof (cases "lm = 1")
  case True
  with masks have rm: "rm = 0" by simp
  have "num_le (fadd (fmul raw (num 1)) (fmul (num 0) (num 0)))
               (fadd (fmul (num 255) (num 1)) (fmul (num 0) (num 0)))"
    using raw by (intro fadd_mono fmul_mono) (simp_all add: num_le_def num_def)
  moreover have "valof (fadd (fmul (num 255) (num 1)) (fmul (num 0) (num 0))) = valof (num 255)"
    by (simp add: number_eval)
  ultimately show ?thesis unfolding True rm by (simp add: num_le_valof)
next
  case False
  with masks have lm: "lm = 0" and rm: "rm = 1" by simp_all
  have "num_le (fadd (fmul grayL (num 0)) (fmul grayR (num 1)))
               (fadd (fmul (num 255) (num 0)) (fmul (num 255) (num 1)))"
    using grayL grayR by (intro fadd_mono fmul_mono) (simp_all add: num_le_def num_def)
  moreover have "valof (fadd (fmul (num 255) (num 0)) (fmul (num 255) (num 1))) = valof (num 255)"
    by (simp add: number_eval)
  ultimately show ?thesis unfolding lm rm by (simp add: num_le_valof)
qed

text \<open>
  C10: for every preset and all left and right input bytes, each of the three output
  channels, as computed before it is stored, is a number between 0 and 255: the clamp of
  the store never changes the range of a value.
\<close>

theorem channels_in_range:
  assumes "ANAGLYPH_MODES name = Some mode"
  shows "in_byte_range (R_out mode (num (unat (R_L :: 8 word)))
           (getGrayscale (num (unat R_L)) (num (unat (G_L :: 8 word))) (num (unat (B_L :: 8 word))))
           (getGrayscale (num (unat (R_R :: 8 word))) (num (unat (G_R :: 8 word)))
              (num (unat (B_R :: 8 word)))))
       \<and> in_byte_range (G_out mode (num (unat G_L))
           (getGrayscale (num (unat R_L)) (num (unat G_L)) (num (unat B_L)))
           (getGrayscale (num (unat R_R)) (num (unat G_R)) (num (unat B_R))))
       \<and> in_byte_range (B_out mode (num (unat B_L))
           (getGrayscale (num (unat R_L)) (num (unat G_L)) (num (unat B_L)))
           (getGrayscale (num (unat R_R)) (num (unat G_R)) (num (unat B_R))))"
proof -
  note masks = preset_masks[OF assms]
  note bound = channel_le_255[OF _ num_le_byte getGrayscale_le_255 getGrayscale_le_255,
      THEN num_le_in_byte_range]
  have "left mode ! 0 + right mode ! 0 = 1" by (rule masks) simp
  then have r: "in_byte_range (R_out mode (num (unat R_L))
           (getGrayscale (num (unat R_L)) (num (unat G_L)) (num (unat B_L)))
           (getGrayscale (num (unat R_R)) (num (unat G_R)) (num (unat B_R))))"
    unfolding R_out_def by (rule bound)
  have "left mode ! 1 + right mode ! 1 = 1" by (rule masks) simp
  then have g: "in_byte_range (G_out mode (num (unat G_L))
           (getGrayscale (num (unat R_L)) (num (unat G_L)) (num (unat B_L)))
           (getGrayscale (num (unat R_R)) (num (unat G_R)) (num (unat B_R))))"
    unfolding G_out_def by (rule bound)
  have "left mode ! 2 + right mode ! 2 = 1" by (rule masks) simp
  then have b: "in_byte_range (B_out mode (num (unat B_L))
           (getGrayscale (num (unat R_L)) (num (unat G_L)) (num (unat B_L)))
           (getGrayscale (num (unat R_R)) (num (unat G_R)) (num (unat B_R))))"
    unfolding B_out_def by (rule bound)
  from r g b show ?thesis by simp
qed

theorem channels_in_range_witness:
  "ANAGLYPH_MODES ''green_magenta'' = Some \<lparr>left = [0, 1, 0], right = [1, 0, 1]\<rparr>
   \<and> in_byte_range (R_out \<lparr>left = [0, 1, 0], right = [1, 0, 1]\<rparr> (num (unat (255 :: 8 word)))
           (getGrayscale (num (unat (255 :: 8 word))) (num (unat (1 :: 8 word))) (num (unat (2 :: 8 word))))
           (getGrayscale (num (unat (255 :: 8 word))) (num (unat (255 :: 8 word)))
              (num (unat (255 :: 8 word)))))
   \<and> valof (R_out \<lparr>left = [0, 1, 0], right = [1, 0, 1]\<rparr> (num (unat (255 :: 8 word)))
           (getGrayscale (num (unat (255 :: 8 word))) (num (unat (1 :: 8 word))) (num (unat (2 :: 8 word))))
           (getGrayscale (num (unat (255 :: 8 word))) (num (unat (255 :: 8 word)))
              (num (unat (255 :: 8 word))))) = Some 255"
proof -
  have h: "ANAGLYPH_MODES ''green_magenta'' = Some \<lparr>left = [0, 1, 0], right = [1, 0, 1]\<rparr>"
    by (simp add: ANAGLYPH_MODES_def)
  have v: "valof (R_out \<lparr>left = [0, 1, 0], right = [1, 0, 1]\<rparr> (num (unat (255 :: 8 word)))
           (getGrayscale (num (unat (255 :: 8 word))) (num (unat (1 :: 8 word))) (num (unat (2 :: 8 word))))
           (getGrayscale (num (unat (255 :: 8 word))) (num (unat (255 :: 8 word)))
              (num (unat (255 :: 8 word))))) = Some 255"
    by (simp add: R_out_def getGrayscale_def number_eval)
  from channels_in_range[OF h, of 255 1 2 255 255 255] h v show ?thesis by blast
qed

section \<open>The claims about the cycle\<close>

lemma replicate_4: "replicate 4 x = [x, x, x, x]"
  by (simp add: eval_nat_numeral)

lemmas cycle_eval = run_def initial_def video_selected_def onloadedmetadata_def
  attemptPlayback_def togglePlayback_def play_fulfilled_def play_rejected_def no_id_def
  request_frame_def processFrame_def get_mode_def conversion_def Object_prototype_def

text \<open>
  C5, at the input where the code departs from it: the selected preset identifier is
  \<open>constructor\<close>, which is not in the known preset set. The property read gives the
  inherited constructor, the guard \<^verbatim>\<open>!mode\<close> lets it pass, and the iteration draws and
  extracts both sub-images, throws at \<^verbatim>\<open>mode.left[0]\<close> and requests no further frame.
\<close>

theorem inherited_preset_not_skipped:
  "ANAGLYPH_MODES (anaglyphMode (run (mode_trace ''constructor'') (initial 1 1))) = None
   \<and> \<not> paused (run (mode_trace ''constructor'') (initial 1 1))
   \<and> \<not> ended (run (mode_trace ''constructor'') (initial 1 1))
   \<and> calls (run (mode_trace ''constructor'') (initial 1 1)) = [RequestAnimationFrame]
   \<and> frame_requests (run (mode_trace ''constructor'') (initial 1 1)) = [1]
   \<and> calls (step (Animation_frame [200, 50, 50, 255] [50, 200, 50, 255])
        (run (mode_trace ''constructor'') (initial 1 1)))
       = [RequestAnimationFrame, DrawImage, GetImageData, DrawImage, GetImageData]
   \<and> uncaught (step (Animation_frame [200, 50, 50, 255] [50, 200, 50, 255])
        (run (mode_trace ''constructor'') (initial 1 1))) = [TypeError]
   \<and> frame_requests (step (Animation_frame [200, 50, 50, 255] [50, 200, 50, 255])
        (run (mode_trace ''constructor'') (initial 1 1))) = []"
  by (simp add: mode_trace_def cycle_eval ANAGLYPH_MODES_def)

text \<open>
  C6, at the input where the code departs from it: with the preset identifier
  \<open>toString\<close> the stream is neither paused nor ended when the callback runs, and the
  run ends in the exception without rescheduling: the stream keeps playing, no request is
  outstanding, and no later event brings one back. (The first half of the claim holds: a
  run that finds the stream paused or ended stops, \<open>processFrame_stopped\<close>; and a run
  that does not throw reschedules, \<open>processFrame_requests\<close>.)
\<close>

theorem inherited_preset_ends_cycle:
  "\<not> paused (run (mode_trace ''toString'') (initial 1 1))
   \<and> \<not> ended (run (mode_trace ''toString'') (initial 1 1))
   \<and> frame_requests (run (mode_trace ''toString'') (initial 1 1)) = [1]
   \<and> \<not> paused (run (mode_trace ''toString''
          @ [Animation_frame [200, 50, 50, 255] [50, 200, 50, 255]]) (initial 1 1))
   \<and> \<not> ended (run (mode_trace ''toString''
          @ [Animation_frame [200, 50, 50, 255] [50, 200, 50, 255]]) (initial 1 1))
   \<and> isVideoPlaying (run (mode_trace ''toString''
          @ [Animation_frame [200, 50, 50, 255] [50, 200, 50, 255]]) (initial 1 1))
   \<and> frame_requests (run (mode_trace ''toString''
          @ [Animation_frame [200, 50, 50, 255] [50, 200, 50, 255]]) (initial 1 1)) = []
   \<and> (\<forall>es. frame_requests (run es (run (mode_trace ''toString''
          @ [Animation_frame [200, 50, 50, 255] [50, 200, 50, 255]]) (initial 1 1))) = [])"
proof -
  let ?s = "run (mode_trace ''toString''
          @ [Animation_frame [200, 50, 50, 255] [50, 200, 50, 255]]) (initial 1 1)"
  have before: "\<not> paused (run (mode_trace ''toString'') (initial 1 1))
     \<and> \<not> ended (run (mode_trace ''toString'') (initial 1 1))
     \<and> frame_requests (run (mode_trace ''toString'') (initial 1 1)) = [1]"
    by (simp add: mode_trace_def cycle_eval ANAGLYPH_MODES_def)
  have after: "\<not> paused ?s \<and> \<not> ended ?s \<and> isVideoPlaying ?s \<and> frame_requests ?s = []
     \<and> animationFrameId ?s = Some 1"
    by (simp add: mode_trace_def cycle_eval ANAGLYPH_MODES_def)
  then have "stalled ?s" by (simp add: stalled_def no_id_def)
  then have "\<And>es. stalled (run es ?s)" by (rule stalled_run)
  then have "\<forall>es. frame_requests (run es ?s) = []" by (simp add: stalled_def)
  with before after show ?thesis by blast
qed

text \<open>
  C7, at the input where the code departs from it: a second video is selected while the
  cycle of the first is running, and is played. The handler has cancelled the outstanding
  request without clearing \<open>animationFrameId\<close>, so the play handler requests no frame:
  the stream plays with no request outstanding, and no later event (pause, resume, a new
  selection) brings one back.
\<close>

theorem reselect_stalls_cycle:
  "\<not> paused (run reselect_trace (initial 1 1))
   \<and> isVideoPlaying (run reselect_trace (initial 1 1))
   \<and> animationFrameId (run reselect_trace (initial 1 1)) = Some 2
   \<and> frame_requests (run reselect_trace (initial 1 1)) = []
   \<and> frame_requests (run (reselect_trace @ [Click_playPause, Click_playPause, Play_fulfilled])
        (initial 1 1)) = []
   \<and> \<not> paused (run (reselect_trace @ [Click_playPause, Click_playPause, Play_fulfilled])
        (initial 1 1))
   \<and> (\<forall>es. frame_requests (run es (run reselect_trace (initial 1 1))) = [])"
proof -
  have now: "\<not> paused (run reselect_trace (initial 1 1))
     \<and> isVideoPlaying (run reselect_trace (initial 1 1))
     \<and> animationFrameId (run reselect_trace (initial 1 1)) = Some 2
     \<and> frame_requests (run reselect_trace (initial 1 1)) = []"
    by (simp add: reselect_trace_def cycle_eval transform_eval number_eval)
  have resumed: "frame_requests (run (reselect_trace @ [Click_playPause, Click_playPause, Play_fulfilled])
        (initial 1 1)) = []
     \<and> \<not> paused (run (reselect_trace @ [Click_playPause, Click_playPause, Play_fulfilled])
        (initial 1 1))"
    by (simp add: reselect_trace_def cycle_eval transform_eval number_eval)
  have "stalled (run reselect_trace (initial 1 1))"
    using now by (simp add: stalled_def no_id_def)
  then have "\<And>es. stalled (run es (run reselect_trace (initial 1 1)))"
    by (rule stalled_run)
  then have "\<forall>es. frame_requests (run es (run reselect_trace (initial 1 1))) = []"
    by (simp add: stalled_def)
  with now resumed show ?thesis by blast
qed

text \<open>
  C8: the composite that a cycle run puts on the canvas is determined by the preset and the
  two extracted sub-images alone, whatever the canvas held before, and a second run on the
  same pair with the same preset puts the same composite there.
\<close>

theorem composite_depends_on_inputs_only:
  assumes "\<not> paused s" and "\<not> ended s"
    and "ANAGLYPH_MODES (anaglyphMode s) = Some mode"
    and "canvas_width s \<noteq> 0" and "canvas_height s \<noteq> 0"
  shows "canvas (processFrame srcL srcR s) = anaglyph_loop mode 0 srcL srcR
       \<and> canvas (processFrame srcL srcR (processFrame srcL srcR s))
           = canvas (processFrame srcL srcR s)"
proof -
  let ?s' = "processFrame srcL srcR s"
  have first: "canvas ?s' = anaglyph_loop mode 0 srcL srcR"
    unfolding processFrame_converted[OF assms] by (simp add: request_frame_def)
  have same: "\<not> paused ?s'" "\<not> ended ?s'" "ANAGLYPH_MODES (anaglyphMode ?s') = Some mode"
    "canvas_width ?s' \<noteq> 0" "canvas_height ?s' \<noteq> 0"
    unfolding processFrame_converted[OF assms] using assms by (simp_all add: request_frame_def)
  have "canvas (processFrame srcL srcR ?s') = anaglyph_loop mode 0 srcL srcR"
    unfolding processFrame_converted[OF same] by (simp add: request_frame_def)
  with first show ?thesis by simp
qed

theorem composite_depends_on_inputs_only_witness:
  "\<not> paused ((initial 1 1)\<lparr>paused := False\<rparr>)
   \<and> \<not> ended ((initial 1 1)\<lparr>paused := False\<rparr>)
   \<and> ANAGLYPH_MODES (anaglyphMode ((initial 1 1)\<lparr>paused := False\<rparr>))
       = Some \<lparr>left = [1, 0, 0], right = [0, 1, 1]\<rparr>
   \<and> canvas_width ((initial 1 1)\<lparr>paused := False\<rparr>) \<noteq> 0
   \<and> canvas_height ((initial 1 1)\<lparr>paused := False\<rparr>) \<noteq> 0
   \<and> canvas (processFrame [200, 50, 50, 255] [50, 200, 50, 255]
        (processFrame [200, 50, 50, 255] [50, 200, 50, 255] ((initial 1 1)\<lparr>paused := False\<rparr>)))
       = canvas (processFrame [200, 50, 50, 255] [50, 200, 50, 255]
           ((initial 1 1)\<lparr>paused := False\<rparr>))
   \<and> canvas (processFrame [200, 50, 50, 255] [50, 200, 50, 255]
           ((initial 1 1)\<lparr>paused := False\<rparr>)) = [200, 138, 138, 255]"
proof -
  let ?s = "(initial 1 1)\<lparr>paused := False\<rparr>"
  have p: "\<not> paused ?s" and e: "\<not> ended ?s" by (simp_all add: initial_def)
  have m: "ANAGLYPH_MODES (anaglyphMode ?s) = Some \<lparr>left = [1, 0, 0], right = [0, 1, 1]\<rparr>"
    by (simp add: initial_def ANAGLYPH_MODES_def)
  have w: "canvas_width ?s \<noteq> 0" and h: "canvas_height ?s \<noteq> 0" by (simp_all add: initial_def)
  have v: "anaglyph_loop \<lparr>left = [1, 0, 0], right = [0, 1, 1]\<rparr> 0
             [200, 50, 50, 255] [50, 200, 50, 255] = [200, 138, 138, 255]"
    by (simp add: transform_eval number_eval)
  from composite_depends_on_inputs_only[OF p e m w h, of "[200, 50, 50, 255]" "[50, 200, 50, 255]"]
    p e m w h v
  show ?thesis by simp
qed

end
